theory Spec2Isabelle
  imports Main
begin

section \<open>Go values used by the RTSP request layer\<close>

text \<open>
  A Go \<open>string\<close> and a Go \<open>[]byte\<close> are both sequences of bytes; the conversions
  \<open>string(b)\<close> and \<open>[]byte(s)\<close> copy the bytes unchanged. Both are modelled as
  \<open>string\<close> (a list of 8-bit characters). Go's \<open>int\<close> is taken to be 64 bits wide.
\<close>

definition CR :: char where
  "CR = char_of (13::nat)"

definition LF :: char where
  "LF = char_of (10::nat)"

definition CRLF :: string where
  "CRLF = [CR, LF]"

text \<open>
  A call either returns a value or panics (a run-time error that unwinds the goroutine:
  a slice expression out of range, a method call on a nil interface, a failed type
  assertion).
\<close>

datatype 'a go = is_Panic: Panic | Ret 'a

text \<open>
  The error values of the package: \<open>errors.New(msg)\<close>, and the \<open>*strconv.NumError\<close>
  of \<open>strconv.Atoi\<close>, which carries the string that failed to parse.
\<close>

datatype error = errors_New string | NumError string

subsection \<open>bytes.Index, bytes.Split, strings.Split\<close>

text \<open>
  \<open>Index s sep\<close> is the index of the first instance of \<open>sep\<close> in \<open>s\<close>, or \<open>-1\<close>.
\<close>

fun Index :: "string \<Rightarrow> string \<Rightarrow> int" where
  "Index [] sep = (if sep = [] then 0 else -1)"
| "Index (c # s) sep =
     (if take (length sep) (c # s) = sep then 0
      else (let i = Index s sep in if i = -1 then -1 else i + 1))"

text \<open>
  \<open>Split s sep\<close> cuts \<open>s\<close> at every instance of \<open>sep\<close>, left to right and without
  overlap, as the library's loop does: find the next instance, emit the bytes before it,
  continue after it; the rest is the last piece. The source only passes the non-empty
  separators \<open>"\r\n"\<close>, \<open>" "\<close> and \<open>":"\<close>; with an empty separator the library
  explodes \<open>s\<close> into UTF-8 sequences, which is outside this model (\<open>[s]\<close> is returned).
\<close>

function Split :: "string \<Rightarrow> string \<Rightarrow> string list" where
  "Split s sep =
     (let m = Index s sep in
      if sep = [] \<or> m < 0 then [s]
      else take (nat m) s # Split (drop (nat m + length sep) s) sep)"
  by pat_completeness auto
termination
proof (relation "measure (\<lambda>(s, sep). length s)")
  show "wf (measure (\<lambda>(s, sep). length s))"
    by simp
next
  fix s sep :: string and m :: int
  assume m: "m = Index s sep" and c: "\<not> (sep = [] \<or> m < 0)"
  have bound: "0 \<le> Index t sep \<Longrightarrow> nat (Index t sep) + length sep \<le> length t" for t
  proof (induction t)
    case Nil
    then show ?case by (simp split: if_splits)
  next
    case (Cons a t)
    show ?case
    proof (cases "take (length sep) (a # t) = sep")
      case True
      then have "length (take (length sep) (a # t)) = length sep"
        by simp
      then have "length sep \<le> length (a # t)"
        by (simp only: length_take)
      with True show ?thesis by simp
    next
      case False
      with Cons show ?thesis
        by (auto simp: Let_def nat_add_distrib split: if_splits)
    qed
  qed
  from c m have "0 \<le> Index s sep" and "sep \<noteq> []" by auto
  with bound [of s] have "length s \<ge> nat m + length sep" and "0 < length sep"
    using m by auto
  then show "((drop (nat m + length sep) s, sep), (s, sep)) \<in> measure (\<lambda>(s, sep). length s)"
    by (cases sep) simp_all
qed

declare Split.simps [simp del]

subsection \<open>strings.ToLower\<close>

text \<open>
  \<open>strings.ToLower\<close> has two paths. A string of ASCII bytes only is lowered byte by
  byte (\<open>'A'..'Z'\<close> plus 32). Any other string is mapped rune by rune through the
  Unicode tables of the Go library, which are not part of the repository: that mapping
  is the parameter \<open>uni\<close>.
\<close>

definition isASCII :: "string \<Rightarrow> bool" where
  "isASCII s = list_all (\<lambda>c. (of_char c :: nat) < 128) s"

definition lower_byte :: "char \<Rightarrow> char" where
  "lower_byte c =
     (let n = (of_char c :: nat) in if 65 \<le> n \<and> n \<le> 90 then char_of (n + 32) else c)"

definition ToLower :: "(string \<Rightarrow> string) \<Rightarrow> string \<Rightarrow> string" where
  "ToLower uni s = (if isASCII s then map lower_byte s else uni s)"

subsection \<open>strconv.Atoi\<close>

text \<open>
  \<open>Atoi\<close> accepts an optional sign followed by one or more decimal digits and nothing
  else (no spaces, no underscores), and the value must fit in a 64-bit \<open>int\<close>. Every
  failure is a \<open>NumError\<close> holding the input.
\<close>

definition is_digit :: "char \<Rightarrow> bool" where
  "is_digit c = (let n = (of_char c :: nat) in 48 \<le> n \<and> n \<le> 57)"

definition digits_val :: "string \<Rightarrow> int" where
  "digits_val ds = foldl (\<lambda>n c. n * 10 + (int (of_char c) - 48)) 0 ds"

definition Atoi :: "string \<Rightarrow> error + int" where
  "Atoi s0 =
     (let neg = (s0 \<noteq> [] \<and> hd s0 = CHR ''-'');
          s = (if s0 \<noteq> [] \<and> (hd s0 = CHR ''-'' \<or> hd s0 = CHR ''+'') then tl s0 else s0)
      in if s = [] \<or> \<not> list_all is_digit s then Inl (NumError s0)
         else (let n = (if neg then - digits_val s else digits_val s)
               in if n < - (2 ^ 63) \<or> 2 ^ 63 - 1 < n then Inl (NumError s0) else Inr n))"

subsection \<open>64-bit addition and slice expressions\<close>

definition wrap64 :: "int \<Rightarrow> int" where
  "wrap64 x = (x + 2 ^ 63) mod 2 ^ 64 - 2 ^ 63"

text \<open>
  A slice \<open>buf\<close> is a window of length \<open>len(buf)\<close> on a backing array; \<open>spare\<close> are the
  bytes of the array between \<open>len(buf)\<close> and \<open>cap(buf)\<close>. The slice expression
  \<open>buf[lo:hi]\<close> panics unless \<open>0 \<le> lo \<le> hi \<le> cap(buf)\<close>: the upper bound is checked
  against the capacity, not the length.
\<close>

definition slice :: "string \<Rightarrow> string \<Rightarrow> int \<Rightarrow> int \<Rightarrow> string go" where
  "slice buf spare lo hi =
     (if 0 \<le> lo \<and> lo \<le> hi \<and> hi \<le> int (length buf + length spare)
      then Ret (take (nat (hi - lo)) (drop (nat lo) (buf @ spare)))
      else Panic)"

section \<open>Package rtsp: Request and UnmarshalRequest\<close>

type_synonym HeaderLines = "string \<rightharpoonup> string"

record Request =
  Method :: string
  Url :: string
  Version :: string
  Lines :: HeaderLines
  Content :: string

text \<open>
  The loop \<open>for _, line := range lines\<close> of \<open>UnmarshalRequest\<close>. Its state is the
  header map and \<open>contentLength\<close>; it leaves the function at the first
  \<open>content-length\<close> value that \<open>Atoi\<close> rejects.
\<close>

fun parse_lines ::
  "(string \<Rightarrow> string) \<Rightarrow> string list \<Rightarrow> HeaderLines \<Rightarrow> int \<Rightarrow> error + (HeaderLines \<times> int)" where
  "parse_lines uni [] hl contentLength = Inr (hl, contentLength)"
| "parse_lines uni (line # rest) hl contentLength =
     (if length line = 0 then parse_lines uni rest hl contentLength
      else (let idx = Index line '':'' in
        if idx = -1 then parse_lines uni rest hl contentLength
        else (let key = ToLower uni (take (nat idx) line);
                  val = drop (nat (idx + 1)) line;
                  hl' = hl(key \<mapsto> val)
              in if key = ''content-length''
                 then (case Atoi val of
                         Inl err \<Rightarrow> Inl err
                       | Inr n \<Rightarrow> parse_lines uni rest hl' n)
                 else parse_lines uni rest hl' contentLength)))"

text \<open>
  What one pass of the loop body does with a line: \<open>header_of\<close> is the key/value pair
  the line stores in the map (none for an empty line or a line without a colon),
  \<open>headers_of\<close> the pairs of all lines in order, and \<open>content_lengths\<close> the values
  stored under \<open>content-length\<close>, in order.
\<close>

definition header_of :: "(string \<Rightarrow> string) \<Rightarrow> string \<Rightarrow> (string \<times> string) option" where
  "header_of uni line =
     (if length line = 0 then None
      else (let idx = Index line '':'' in
        if idx = -1 then None
        else Some (ToLower uni (take (nat idx) line), drop (nat (idx + 1)) line)))"

definition headers_of :: "(string \<Rightarrow> string) \<Rightarrow> string list \<Rightarrow> (string \<times> string) list" where
  "headers_of uni lines = List.map_filter (header_of uni) lines"

definition content_lengths :: "(string \<Rightarrow> string) \<Rightarrow> string list \<Rightarrow> string list" where
  "content_lengths uni lines =
     map snd (filter (\<lambda>kv. fst kv = ''content-length'') (headers_of uni lines))"

text \<open>
  \<open>UnmarshalRequest buf\<close>, with the spare capacity of \<open>buf\<close> as a further argument.
  The result is the triple the function returns, or a panic. \<open>headerEndOffset + 4\<close>
  is at most \<open>len(buf)\<close> and cannot overflow; the sums with \<open>contentLength\<close> wrap
  around at 64 bits.
\<close>

definition UnmarshalRequest ::
  "(string \<Rightarrow> string) \<Rightarrow> string \<Rightarrow> string \<Rightarrow> (Request option \<times> int \<times> error option) go" where
  "UnmarshalRequest uni buf spare =
     (let headerEndOffset = Index buf (CRLF @ CRLF) in
      if headerEndOffset = -1 then Ret (None, -1, Some (errors_New ''incomplete packet''))
      else (let endOffset = headerEndOffset + 4;
                lines = Split (take (nat headerEndOffset) buf) CRLF in
        if length lines < 2 then Ret (None, endOffset, Some (errors_New ''invalid packet''))
        else (let methodLineParts = Split (lines ! 0) '' '' in
          if length methodLineParts \<noteq> 3
          then Ret (None, endOffset, Some (errors_New ''invalid packet''))
          else (case parse_lines uni lines Map.empty 0 of
                  Inl err \<Rightarrow> Ret (None, headerEndOffset + 4, Some err)
                | Inr (hl, contentLength) \<Rightarrow>
                    (case slice buf spare (headerEndOffset + 4)
                            (wrap64 (headerEndOffset + 4 + contentLength)) of
                       Panic \<Rightarrow> Panic
                     | Ret content \<Rightarrow>
                         Ret (Some \<lparr>Method = ToLower uni (methodLineParts ! 0),
                                    Url = ToLower uni (methodLineParts ! 1),
                                    Version = ToLower uni (methodLineParts ! 2),
                                    Lines = hl,
                                    Content = content\<rparr>,
                              wrap64 (endOffset + contentLength),
                              None))))))"

text \<open>A lookup \<open>m[key]\<close> in a Go map gives the empty string for a missing key.\<close>

definition GetLine :: "Request \<Rightarrow> string \<Rightarrow> string" where
  "GetLine req key = (case Lines req key of None \<Rightarrow> [] | Some v \<Rightarrow> v)"

definition CSeq :: "Request \<Rightarrow> int" where
  "CSeq req =
     (let cseqLine = GetLine req ''cseq'' in
      if cseqLine = [] then -1
      else (case Atoi cseqLine of Inl err \<Rightarrow> -1 | Inr cseq \<Rightarrow> cseq))"

text \<open>
  \<open>HeaderLines.String\<close> ranges over the map. Go leaves the iteration order of a map
  unspecified, visiting every key once: \<open>order\<close> is the order the run-time system
  picks, a list holding each key of the map once.
\<close>

definition key_order :: "string list \<Rightarrow> HeaderLines \<Rightarrow> bool" where
  "key_order order lines = (distinct order \<and> set order = dom lines)"

definition HeaderLines_String :: "string list \<Rightarrow> HeaderLines \<Rightarrow> string" where
  "HeaderLines_String order lines =
     foldl (\<lambda>s k. s @ k @ '': '' @ (case lines k of None \<Rightarrow> [] | Some v \<Rightarrow> v) @ CRLF) [] order"

definition ToString :: "string list \<Rightarrow> Request \<Rightarrow> string" where
  "ToString order req =
     Method req @ '' '' @ Url req @ '' '' @ Version req @ CRLF
       @ HeaderLines_String order (Lines req) @ CRLF @ Content req"

subsection \<open>SetParameterRequest.Parameters\<close>

text \<open>
  The loop over the lines of the body: a line is kept when \<open>strings.Split(line, ":")\<close>
  has exactly two parts. The result of the method is a nil map (\<open>None\<close>) for an empty
  body.
\<close>

fun Parameters_loop :: "string list \<Rightarrow> (string \<rightharpoonup> string) \<Rightarrow> (string \<rightharpoonup> string)" where
  "Parameters_loop [] params = params"
| "Parameters_loop (line # rest) params =
     (let parts = Split line '':'' in
      if length parts \<noteq> 2 then Parameters_loop rest params
      else Parameters_loop rest (params(parts ! 0 \<mapsto> parts ! 1)))"

definition SetParameterRequest_Parameters :: "Request \<Rightarrow> (string \<rightharpoonup> string) option" where
  "SetParameterRequest_Parameters req =
     (if length (Content req) = 0 then None
      else Some (Parameters_loop (Split (Content req) CRLF) Map.empty))"

section \<open>Package tcp: the connection Context\<close>

text \<open>
  \<open>gnet.Conn\<close> and \<open>net.Addr\<close> are interfaces of other packages. A connection is
  modelled by what its methods answer: \<open>RemoteAddr()\<close> and \<open>LocalAddr()\<close> give a
  \<open>net.Addr\<close> or nil, \<open>AsyncWrite\<close> gives an error or nil. An interface value that
  is nil is \<open>None\<close>; calling a method on it panics.
\<close>

record net_Addr =
  Addr_Network :: string
  Addr_String :: string

record gnet_Conn =
  Conn_RemoteAddr :: "net_Addr option"
  Conn_LocalAddr :: "net_Addr option"
  Conn_AsyncWrite :: "string \<Rightarrow> error option"

record Context =
  Conn :: "gnet_Conn option"

text \<open>The argument of \<open>SetConn\<close> is an \<open>interface{}\<close>: nil, a \<open>gnet.Conn\<close>, or any other value.\<close>

datatype iface = nil | conn gnet_Conn | other

definition NewContext :: Context where
  "NewContext = \<lparr>Conn = None\<rparr>"

definition Write :: "Context \<Rightarrow> string \<Rightarrow> error option go" where
  "Write ctx data =
     (case Conn ctx of None \<Rightarrow> Panic | Some c \<Rightarrow> Ret (Conn_AsyncWrite c data))"

definition SetConn :: "Context \<Rightarrow> iface \<Rightarrow> Context go" where
  "SetConn ctx c =
     (case c of
        nil \<Rightarrow> Ret (ctx\<lparr>Conn := None\<rparr>)
      | conn g \<Rightarrow> Ret (ctx\<lparr>Conn := Some g\<rparr>)
      | other \<Rightarrow> Panic)"

definition RemoteAddr :: "Context \<Rightarrow> string go" where
  "RemoteAddr ctx =
     (case Conn ctx of
        None \<Rightarrow> Ret []
      | Some c \<Rightarrow>
          (case Conn_RemoteAddr c of
             None \<Rightarrow> Ret []
           | Some a \<Rightarrow> Ret (Addr_String a)))"

definition LocalAddr :: "Context \<Rightarrow> string go" where
  "LocalAddr ctx =
     (case Conn ctx of
        None \<Rightarrow> Ret []
      | Some c \<Rightarrow>
          (case Conn_RemoteAddr c of
             None \<Rightarrow> Ret []
           | Some r \<Rightarrow>
               (case Conn_LocalAddr c of
                  None \<Rightarrow> Panic
                | Some a \<Rightarrow> Ret (Addr_String a))))"

definition Network :: "Context \<Rightarrow> string go" where
  "Network ctx =
     (case Conn ctx of
        None \<Rightarrow> Ret []
      | Some c \<Rightarrow>
          (case Conn_RemoteAddr c of
             None \<Rightarrow> Panic
           | Some a \<Rightarrow> Ret (Addr_Network a)))"

section \<open>Reference notions and example inputs\<close>

text \<open>
  The pair a line of a \<open>SET_PARAMETER\<close> body stands for when it holds exactly one
  colon: the text before the colon and the text after it.
\<close>

definition one_colon_pair :: "string \<Rightarrow> (string \<times> string) option" where
  "one_colon_pair line =
     (if count_list line (CHR '':'') = 1
      then Some (takeWhile (\<lambda>c. c \<noteq> CHR '':'') line, tl (dropWhile (\<lambda>c. c \<noteq> CHR '':'') line))
      else None)"

text \<open>The \<open>SETUP\<close> request used as the example of the decoder.\<close>

definition setup_example :: string where
  "setup_example =
     ''SETUP rtsp://host/stream1 RTSP/1.0'' @ CRLF @ ''CSeq: 3'' @ CRLF
       @ ''Transport: RTP/AVP;unicast'' @ CRLF @ CRLF"

text \<open>A request with one header, no colon in its request line and no body.\<close>

definition one_header_example :: string where
  "one_header_example = ''PLAY /s RTSP/1.0'' @ CRLF @ ''k:v'' @ CRLF @ CRLF"

text \<open>A request that declares five body bytes when only two have arrived.\<close>

definition short_body_example :: string where
  "short_body_example =
     ''PLAY /s RTSP/1.0'' @ CRLF @ ''content-length:5'' @ CRLF @ CRLF @ ''ab''"

text \<open>Two \<open>content-length\<close> headers: the first is not a number, the last is.\<close>

definition bad_then_good_example :: string where
  "bad_then_good_example =
     ''PLAY /s RTSP/1.0'' @ CRLF @ ''content-length:x'' @ CRLF @ ''content-length:0''
       @ CRLF @ CRLF"

text \<open>Two numeric \<open>content-length\<close> headers, followed by five bytes.\<close>

definition two_lengths_example :: string where
  "two_lengths_example =
     ''PLAY /s RTSP/1.0'' @ CRLF @ ''content-length:5'' @ CRLF @ ''Content-Length:2''
       @ CRLF @ CRLF @ ''hello''"

text \<open>A negative \<open>content-length\<close>.\<close>

definition negative_length_example :: string where
  "negative_length_example =
     ''PLAY /s RTSP/1.0'' @ CRLF @ ''content-length:-1'' @ CRLF @ CRLF"

text \<open>A request whose body is the given bytes (the other fields play no part).\<close>

definition with_body :: "string \<Rightarrow> Request" where
  "with_body b = \<lparr>Method = ''set_parameter'', Url = [], Version = [], Lines = Map.empty, Content = b\<rparr>"

section \<open>Properties of the library functions\<close>

lemma Index_lower: "- 1 \<le> Index s sep"
  by (induction s) (auto simp: Let_def)

lemma Index_absent_iff: "Index s sep = - 1 \<longleftrightarrow> (\<nexists>pre post. s = pre @ sep @ post)"
proof (induction s)
  case Nil
  then show ?case by auto
next
  case (Cons c s)
  show ?case
  proof (cases "take (length sep) (c # s) = sep")
    case True
    then have "c # s = [] @ sep @ drop (length sep) (c # s)"
      by (metis append_Nil append_take_drop_id)
    then have "\<exists>pre post. c # s = pre @ sep @ post" by blast
    with True show ?thesis by simp
  next
    case False
    have "(\<exists>pre post. c # s = pre @ sep @ post) \<longleftrightarrow> (\<exists>pre post. s = pre @ sep @ post)"
    proof
      assume "\<exists>pre post. c # s = pre @ sep @ post"
      then obtain pre post where d: "c # s = pre @ sep @ post" by blast
      show "\<exists>pre post. s = pre @ sep @ post"
      proof (cases pre)
        case Nil
        with d have "take (length sep) (c # s) = sep" by simp
        with False show ?thesis by simp
      next
        case (Cons a pre')
        with d have "s = pre' @ sep @ post" by simp
        then show ?thesis by blast
      qed
    next
      assume "\<exists>pre post. s = pre @ sep @ post"
      then obtain pre post where "s = pre @ sep @ post" by blast
      then have "c # s = (c # pre) @ sep @ post" by simp
      then show "\<exists>pre post. c # s = pre @ sep @ post" by blast
    qed
    moreover have "Index (c # s) sep = - 1 \<longleftrightarrow> Index s sep = - 1"
      using False Index_lower [of s sep] by (auto simp: Let_def)
    ultimately show ?thesis using Cons.IH by simp
  qed
qed

lemma Index_bound: "0 \<le> Index t sep \<Longrightarrow> nat (Index t sep) + length sep \<le> length t"
proof (induction t)
  case Nil
  then show ?case by (simp split: if_splits)
next
  case (Cons a t)
  show ?case
  proof (cases "take (length sep) (a # t) = sep")
    case True
    then have "length (take (length sep) (a # t)) = length sep"
      by simp
    then have "length sep \<le> length (a # t)"
      by (simp only: length_take)
    with True show ?thesis by simp
  next
    case False
    with Cons show ?thesis
      by (auto simp: Let_def nat_add_distrib split: if_splits)
  qed
qed

lemma Atoi_range: "Atoi s = Inr n \<Longrightarrow> - (2 ^ 63) \<le> n \<and> n \<le> 2 ^ 63 - 1"
  by (auto simp: Atoi_def Let_def split: if_splits)

lemma Atoi_Inl: "Atoi s = Inl e \<Longrightarrow> e = NumError s"
  by (auto simp: Atoi_def Let_def split: if_splits)

lemma wrap64_le: "- (2 ^ 63) \<le> x \<Longrightarrow> wrap64 x \<le> x"
proof -
  assume "- (2 ^ 63) \<le> x"
  then have "0 \<le> x + 2 ^ 63" by simp
  then have "(x + 2 ^ 63) mod 2 ^ 64 \<le> x + 2 ^ 63"
    by (rule zmod_le_nonneg_dividend)
  then show ?thesis by (simp add: wrap64_def)
qed

lemma wrap64_id: "- (2 ^ 63) \<le> x \<Longrightarrow> x < 2 ^ 63 \<Longrightarrow> wrap64 x = x"
  by (simp add: wrap64_def mod_pos_pos_trivial)

lemma wrap64_neg: "2 ^ 63 \<le> x \<Longrightarrow> x < 2 ^ 64 \<Longrightarrow> wrap64 x < 0"
proof -
  assume a: "2 ^ 63 \<le> x" "x < 2 ^ 64"
  define y where "y = x - 2 ^ 63"
  have "(x + 2 ^ 63) mod 2 ^ 64 = (y + 2 ^ 64) mod 2 ^ 64"
    by (simp add: y_def add.commute)
  also have "\<dots> = y mod 2 ^ 64"
    by (rule mod_add_self2)
  also have "\<dots> = y"
    using a by (intro mod_pos_pos_trivial) (simp_all add: y_def)
  finally show ?thesis using a by (simp add: wrap64_def y_def)
qed

lemma slice_Panic_low: "hi < lo \<Longrightarrow> slice buf spare lo hi = Panic"
  by (simp add: slice_def)

lemma slice_Panic_high: "int (length buf + length spare) < hi \<Longrightarrow> slice buf spare lo hi = Panic"
  by (simp add: slice_def)

lemma slice_Ret:
  "0 \<le> lo \<Longrightarrow> 0 \<le> n \<Longrightarrow> lo + n \<le> int (length buf + length spare) \<Longrightarrow>
     slice buf spare lo (lo + n) = Ret (take (nat n) (drop (nat lo) (buf @ spare)))"
  by (simp add: slice_def)

lemma Index_char:
  "Index s [c] = (if c \<in> set s then int (length (takeWhile (\<lambda>x. x \<noteq> c) s)) else - 1)"
  by (induction s) (auto simp: Let_def)

lemma Split_char_notin: "c \<notin> set s \<Longrightarrow> Split s [c] = [s]"
  by (subst Split.simps) (simp add: Index_char)

lemma Split_char_in:
  assumes "c \<in> set s"
  shows "Split s [c] = takeWhile (\<lambda>x. x \<noteq> c) s # Split (tl (dropWhile (\<lambda>x. x \<noteq> c) s)) [c]"
proof -
  let ?m = "length (takeWhile (\<lambda>x. x \<noteq> c) s)"
  have t: "take ?m s = takeWhile (\<lambda>x. x \<noteq> c) s"
    by (rule takeWhile_eq_take [symmetric])
  have d: "drop (Suc ?m) s = tl (dropWhile (\<lambda>x. x \<noteq> c) s)"
    by (simp add: dropWhile_eq_drop drop_Suc tl_drop)
  show ?thesis
    using assms by (subst Split.simps) (simp add: Index_char t d Let_def)
qed

lemma count_list_split:
  "c \<in> set s \<Longrightarrow> count_list s c = Suc (count_list (tl (dropWhile (\<lambda>x. x \<noteq> c) s)) c)"
  by (induction s) auto

lemma length_Split_char: "length (Split s [c]) = Suc (count_list s c)"
proof (induction "length s" arbitrary: s rule: less_induct)
  case less
  show ?case
  proof (cases "c \<in> set s")
    case False
    then have "count_list s c = 0" by (simp add: count_list_0_iff)
    with False show ?thesis by (simp add: Split_char_notin)
  next
    case True
    let ?r = "tl (dropWhile (\<lambda>x. x \<noteq> c) s)"
    from True have "dropWhile (\<lambda>x. x \<noteq> c) s \<noteq> []" by simp
    then have "length ?r < length (dropWhile (\<lambda>x. x \<noteq> c) s)"
      by (cases "dropWhile (\<lambda>x. x \<noteq> c) s") simp_all
    also have "\<dots> \<le> length s"
      by (simp add: length_dropWhile_le)
    finally have "length (Split ?r [c]) = Suc (count_list ?r c)"
      by (rule less)
    with True show ?thesis
      by (simp add: Split_char_in count_list_split [OF True])
  qed
qed

lemma Split_char_two:
  "length (Split s [c]) = 2 \<longleftrightarrow> count_list s c = 1"
  by (simp add: length_Split_char)

lemma Split_char_one_colon:
  assumes "count_list s c = 1"
  shows "Split s [c] = [takeWhile (\<lambda>x. x \<noteq> c) s, tl (dropWhile (\<lambda>x. x \<noteq> c) s)]"
proof -
  from assms have in_s: "c \<in> set s"
    by (metis count_list_0_iff zero_neq_one)
  with assms have "count_list (tl (dropWhile (\<lambda>x. x \<noteq> c) s)) c = 0"
    by (simp add: count_list_split)
  then have "c \<notin> set (tl (dropWhile (\<lambda>x. x \<noteq> c) s))"
    by (simp add: count_list_0_iff)
  then show ?thesis
    by (simp add: Split_char_in [OF in_s] Split_char_notin)
qed

section \<open>The decoding loop\<close>

lemma headers_of_Nil: "headers_of uni [] = []"
  by (simp add: headers_of_def map_filter_simps)

lemma headers_of_Cons:
  "headers_of uni (line # rest) =
     (case header_of uni line of None \<Rightarrow> headers_of uni rest | Some kv \<Rightarrow> kv # headers_of uni rest)"
  by (simp add: headers_of_def map_filter_simps split: option.splits)

lemma parse_lines_step:
  "parse_lines uni (line # rest) hl cl =
     (case header_of uni line of
        None \<Rightarrow> parse_lines uni rest hl cl
      | Some (k, v) \<Rightarrow>
          if k = ''content-length''
          then (case Atoi v of Inl err \<Rightarrow> Inl err | Inr n \<Rightarrow> parse_lines uni rest (hl(k \<mapsto> v)) n)
          else parse_lines uni rest (hl(k \<mapsto> v)) cl)"
  by (simp add: header_of_def Let_def)

lemma parse_lines_char:
  "parse_lines uni ls hl cl =
     (case find (\<lambda>v. isl (Atoi v)) (content_lengths uni ls) of
        Some v \<Rightarrow> Inl (NumError v)
      | None \<Rightarrow>
          Inr (hl ++ map_of (rev (headers_of uni ls)),
               if content_lengths uni ls = [] then cl
               else projr (Atoi (last (content_lengths uni ls)))))"
proof (induction ls arbitrary: hl cl)
  case Nil
  then show ?case by (simp add: content_lengths_def headers_of_Nil)
next
  case (Cons line rest)
  show ?case
  proof (cases "header_of uni line")
    case None
    then show ?thesis
      by (simp only: parse_lines_step Cons.IH content_lengths_def headers_of_Cons option.case)
  next
    case (Some kv)
    obtain k v where kv: "kv = (k, v)" by (cases kv)
    have upd: "hl(k \<mapsto> v) ++ map_of (rev (headers_of uni rest))
               = hl ++ map_of (rev (headers_of uni (line # rest)))"
      by (rule ext) (simp add: headers_of_Cons Some kv map_add_def split: option.splits)
    show ?thesis
    proof (cases "k = ''content-length''")
      case False
      have cls: "content_lengths uni (line # rest) = content_lengths uni rest"
        using False by (simp add: content_lengths_def headers_of_Cons Some kv)
      show ?thesis
        using False by (simp add: parse_lines_step Some kv Cons.IH cls upd del: parse_lines.simps split: option.splits)
    next
      case True
      have cls: "content_lengths uni (line # rest) = v # content_lengths uni rest"
        using True by (simp add: content_lengths_def headers_of_Cons Some kv)
      show ?thesis
      proof (cases "Atoi v")
        case (Inl e)
        then have "e = NumError v" by (rule Atoi_Inl)
        with Inl True show ?thesis
          by (simp add: parse_lines_step Some kv cls del: parse_lines.simps)
      next
        case (Inr n)
        with True upd show ?thesis
          by (simp add: parse_lines_step Some kv cls Cons.IH del: parse_lines.simps split: option.splits)
      qed
    qed
  qed
qed


lemma map_add_rev_lookup:
  "(hl ++ map_of (rev kvs)) k =
     (case filter (\<lambda>kv. fst kv = k) kvs of [] \<Rightarrow> hl k | x # xs \<Rightarrow> Some (snd (last (x # xs))))"
proof (induction kvs rule: rev_induct)
  case Nil
  then show ?case by simp
next
  case (snoc kv kvs)
  then show ?case
    by (cases kv) (auto simp: map_add_def split: list.splits option.splits)
qed

lemma content_length_lookup:
  assumes "content_lengths uni ls \<noteq> []"
  shows "(hl ++ map_of (rev (headers_of uni ls))) ''content-length'' = Some (last (content_lengths uni ls))"
proof -
  let ?f = "filter (\<lambda>kv. fst kv = ''content-length'') (headers_of uni ls)"
  from assms have ne: "?f \<noteq> []"
    by (simp add: content_lengths_def)
  then have "(hl ++ map_of (rev (headers_of uni ls))) ''content-length'' = Some (snd (last ?f))"
    by (simp add: map_add_rev_lookup split: list.splits)
  also have "snd (last ?f) = last (content_lengths uni ls)"
    using ne by (simp add: content_lengths_def last_map)
  finally show ?thesis .
qed

lemma find_None_iff_all: "find P xs = None \<longleftrightarrow> (\<forall>x\<in>set xs. \<not> P x)"
  by (induction xs) auto

lemma decode_framed:
  assumes "Index buf (CRLF @ CRLF) = h" and "h \<noteq> - 1"
    and "lines = Split (take (nat h) buf) CRLF" and "2 \<le> length lines"
    and "length (Split (lines ! 0) '' '') = 3"
  shows "UnmarshalRequest uni buf spare =
     (case find (\<lambda>v. isl (Atoi v)) (content_lengths uni lines) of
        Some v \<Rightarrow> Ret (None, h + 4, Some (NumError v))
      | None \<Rightarrow>
          (let n = (if content_lengths uni lines = [] then 0
                    else projr (Atoi (last (content_lengths uni lines))))
           in case slice buf spare (h + 4) (wrap64 (h + 4 + n)) of
                Panic \<Rightarrow> Panic
              | Ret content \<Rightarrow>
                  Ret (Some \<lparr>Method = ToLower uni (Split (lines ! 0) '' '' ! 0),
                             Url = ToLower uni (Split (lines ! 0) '' '' ! 1),
                             Version = ToLower uni (Split (lines ! 0) '' '' ! 2),
                             Lines = map_of (rev (headers_of uni lines)),
                             Content = content\<rparr>,
                       wrap64 (h + 4 + n), None)))"
  using assms
  by (simp add: UnmarshalRequest_def Let_def parse_lines_char split: option.splits go.splits)

lemma content_lengths_tl:
  assumes "lines \<noteq> []"
    and "map_option fst (header_of uni (lines ! 0)) \<noteq> Some ''content-length''"
  shows "content_lengths uni lines = content_lengths uni (tl lines)"
proof -
  from assms(1) obtain l rest where lr: "lines = l # rest"
    by (cases lines) auto
  with assms(2) show ?thesis
    by (cases "header_of uni l") (auto simp: content_lengths_def headers_of_Cons)
qed

lemma framed_never_incomplete:
  assumes "Index buf (CRLF @ CRLF) \<noteq> - 1"
  shows "UnmarshalRequest uni buf spare \<noteq> Ret (ro, k, Some (errors_New ''incomplete packet''))"
  using assms
  by (auto simp: UnmarshalRequest_def Let_def parse_lines_char
           split: if_splits option.splits go.splits sum.splits)

lemma decoded_Lines:
  assumes "UnmarshalRequest uni buf spare = Ret (Some r, n, e)"
  shows "Lines r = map_of (rev (headers_of uni (Split (take (nat (Index buf (CRLF @ CRLF))) buf) CRLF)))"
  using assms
  by (auto simp: UnmarshalRequest_def Let_def parse_lines_char
           split: if_splits option.splits go.splits sum.splits)

lemma decoded_caseD:
  "(case x of Ret (Some r, n, None) \<Rightarrow> P r n | _ \<Rightarrow> False) \<Longrightarrow>
     \<exists>r n. x = Ret (Some r, n, None) \<and> P r n"
  by (auto split: go.splits option.splits prod.splits)

lemma CSeq_cases:
  "CSeq req =
     (case Lines req ''cseq'' of
        None \<Rightarrow> - 1
      | Some v \<Rightarrow> (case Atoi v of Inl e \<Rightarrow> - 1 | Inr n \<Rightarrow> n))"
proof -
  have "Atoi [] = Inl (NumError [])"
    by (simp add: Atoi_def)
  then show ?thesis
    by (simp add: CSeq_def GetLine_def Let_def split: option.splits sum.splits)
qed

section \<open>The decoder\<close>

text \<open>
  Claim C1. Decoding the \<open>SETUP\<close> example returns a Request with method \<open>setup\<close>, an
  empty body and a count of consumed bytes equal to the length of the input, but the
  header map holds the value \<open>" 3"\<close> (the space after the colon is kept) under
  \<open>cseq\<close>, which \<open>Atoi\<close> rejects, so \<open>CSeq\<close> is \<open>-1\<close> and not \<open>3\<close>. The general
  rule of \<open>CSeq\<close> is lemma \<open>CSeq_cases\<close>.
\<close>

theorem setup_example_cseq:
  "(case UnmarshalRequest uni setup_example [] of
      Ret (Some r, n, None) \<Rightarrow>
        Method r = ''setup'' \<and> length (Content r) = 0 \<and> n = int (length setup_example)
          \<and> Lines r ''cseq'' = Some '' 3'' \<and> Atoi '' 3'' = Inl (NumError '' 3'')
          \<and> CSeq r = - 1
    | _ \<Rightarrow> False)"
  by code_simp

text \<open>
  Claim C2. The request decoded from \<open>one_header_example\<close> has the single header
  \<open>k\<close> with value \<open>"v"\<close>, so its keys can only be visited in the order \<open>[k]\<close>.
  \<open>ToString\<close> writes the header as \<open>"k: v"\<close>, and decoding that text gives the value
  \<open>" v"\<close>: the header value is not the one of the original Request.
\<close>

theorem roundtrip_changes_header_value:
  "\<exists>r r' n'.
      UnmarshalRequest uni one_header_example [] = Ret (Some r, int (length one_header_example), None)
    \<and> Lines r = [''k'' \<mapsto> ''v''] \<and> key_order [''k''] (Lines r)
    \<and> ToString [''k''] r = ''play /s rtsp/1.0'' @ CRLF @ ''k: v'' @ CRLF @ CRLF
    \<and> UnmarshalRequest uni (ToString [''k''] r) [] = Ret (Some r', n', None)
    \<and> Lines r' ''k'' = Some '' v''"
proof -
  have "case UnmarshalRequest uni one_header_example [] of
      Ret (Some r, n, None) \<Rightarrow>
        n = int (length one_header_example)
        \<and> ToString [''k''] r = ''play /s rtsp/1.0'' @ CRLF @ ''k: v'' @ CRLF @ CRLF
        \<and> (case UnmarshalRequest uni (ToString [''k''] r) [] of
             Ret (Some r', n', None) \<Rightarrow> Lines r' ''k'' = Some '' v''
           | _ \<Rightarrow> False)
    | _ \<Rightarrow> False"
    by code_simp
  then obtain r n where
    d0: "UnmarshalRequest uni one_header_example [] = Ret (Some r, n, None)"
    and n: "n = int (length one_header_example)"
    and s: "ToString [''k''] r = ''play /s rtsp/1.0'' @ CRLF @ ''k: v'' @ CRLF @ CRLF"
    and c': "case UnmarshalRequest uni (ToString [''k''] r) [] of
               Ret (Some r', n', None) \<Rightarrow> Lines r' ''k'' = Some '' v''
             | _ \<Rightarrow> False"
    by (auto dest!: decoded_caseD)
  from c' obtain r' n' where
    d': "UnmarshalRequest uni (ToString [''k''] r) [] = Ret (Some r', n', None)"
    and l': "Lines r' ''k'' = Some '' v''"
    by (auto dest!: decoded_caseD)
  from d0 n have
    d: "UnmarshalRequest uni one_header_example [] = Ret (Some r, int (length one_header_example), None)"
    by simp
  have "headers_of uni
          (Split (take (nat (Index one_header_example (CRLF @ CRLF))) one_header_example) CRLF)
        = [(''k'', ''v'')]"
    by code_simp
  with decoded_Lines [OF d] have l: "Lines r = [''k'' \<mapsto> ''v'']"
    by simp
  then have "key_order [''k''] (Lines r)"
    by (simp add: key_order_def)
  with d s d' l l' show ?thesis by blast
qed

text \<open>
  Claim C3. The loop over the header lines starts at the request line. The request
  line of the \<open>SETUP\<close> example holds a colon (in its URL), so the decoded header map
  has an entry derived from the request line itself: key \<open>"setup rtsp"\<close>, value
  \<open>"//host/stream1 RTSP/1.0"\<close>. In general the map is the one of lemma
  \<open>decoded_Lines\<close>: the pairs of all lines, the request line included, a later pair
  replacing an earlier one with the same key.
\<close>

theorem request_line_becomes_header:
  "(case UnmarshalRequest uni setup_example [] of
      Ret (Some r, n, None) \<Rightarrow>
        header_of uni ''SETUP rtsp://host/stream1 RTSP/1.0''
          = Some (''setup rtsp'', ''//host/stream1 RTSP/1.0'')
        \<and> Lines r ''setup rtsp'' = Some ''//host/stream1 RTSP/1.0''
    | _ \<Rightarrow> False)"
  by code_simp

text \<open>
  Claim C4. \<open>short_body_example\<close> has the terminator, a well-formed request line and
  \<open>content-length\<close> 5, but only two bytes after the terminator. Decoding it does not
  return the error \<open>incomplete packet\<close>: with no spare capacity behind the buffer the
  slice expression panics, and with spare capacity the body is read past the end of
  the buffer (here the two bytes received and three stale bytes of the backing array).
  No buffer that holds the terminator is ever answered with \<open>incomplete packet\<close>
  (lemma \<open>framed_never_incomplete\<close>).
\<close>

theorem short_body_panics_or_overreads:
  "is_Panic (UnmarshalRequest uni short_body_example [])
   \<and> (case UnmarshalRequest uni short_body_example ''xyzzy'' of
        Ret (Some r, n, None) \<Rightarrow>
          Content r = ''abxyz'' \<and> n = int (length short_body_example) + 3
      | _ \<Rightarrow> False)"
  by code_simp

text \<open>
  Claim C5, as stated, fails: in \<open>bad_then_good_example\<close> the lines after the
  request line hold two \<open>content-length\<close> headers; the value of the last is
  \<open>"0"\<close>, which parses, and still the decoder returns the parse error of the first
  value \<open>"x"\<close>, with the count of consumed bytes at the end of the terminator.
\<close>

theorem last_content_length_counterexample:
  "(case UnmarshalRequest id bad_then_good_example [] of
      Ret (None, n, Some (NumError e)) \<Rightarrow>
        n = Index bad_then_good_example (CRLF @ CRLF) + 4 \<and> e = ''x''
    | _ \<Rightarrow> False)
   \<and> content_lengths id
        (tl (Split (take (nat (Index bad_then_good_example (CRLF @ CRLF))) bad_then_good_example)
               CRLF))
       = [''x'', ''0'']
   \<and> Atoi ''0'' = Inr 0"
  by code_simp

text \<open>
  Claim C5, amended. Let a buffer hold the terminator at \<open>h\<close>, at least two lines
  before it and a request line of three tokens that is not itself read as a
  \<open>content-length\<close> header, and let \<open>cls\<close>, not empty, be the values of the
  \<open>content-length\<close> headers among the lines after the request line, in order. Then
  the decoder returns a \<open>NumError\<close> with \<open>h + 4\<close> bytes consumed exactly when some
  value of \<open>cls\<close> fails to parse, and the error is the one of the first such value.
  When every value parses, the last one, \<open>n\<close>, decides: if \<open>0 \<le> n\<close> and the \<open>n\<close>
  bytes after the terminator are in the buffer, the decoder returns a Request whose
  body is these \<open>n\<close> bytes and whose \<open>content-length\<close> entry is the last value, and
  \<open>h + 4 + n\<close> bytes are consumed.
\<close>

theorem content_length_occurrences:
  assumes "Index buf (CRLF @ CRLF) = h" and "h \<noteq> - 1"
    and "lines = Split (take (nat h) buf) CRLF" and "2 \<le> length lines"
    and "length (Split (lines ! 0) '' '') = 3"
    and "map_option fst (header_of uni (lines ! 0)) \<noteq> Some ''content-length''"
    and "cls = content_lengths uni (tl lines)" and "cls \<noteq> []"
    and "int (length buf) < 2 ^ 63"
  shows "((\<exists>e. UnmarshalRequest uni buf spare = Ret (None, h + 4, Some (NumError e)))
            \<longleftrightarrow> (\<exists>v\<in>set cls. isl (Atoi v)))
       \<and> (\<forall>v. find (\<lambda>v. isl (Atoi v)) cls = Some v \<longrightarrow>
            UnmarshalRequest uni buf spare = Ret (None, h + 4, Some (NumError v)))
       \<and> ((\<forall>v\<in>set cls. \<not> isl (Atoi v)) \<longrightarrow>
            (let n = projr (Atoi (last cls)) in
             0 \<le> n \<and> h + 4 + n \<le> int (length buf) \<longrightarrow>
               (\<exists>r. UnmarshalRequest uni buf spare = Ret (Some r, h + 4 + n, None)
                  \<and> Content r = take (nat n) (drop (nat (h + 4)) buf)
                  \<and> Lines r ''content-length'' = Some (last cls))))"
proof -
  have ne: "lines \<noteq> []"
    using assms(4) by auto
  have all: "cls = content_lengths uni lines"
    using content_lengths_tl [OF ne assms(6)] assms(7) by simp
  note dec = decode_framed [OF assms(1-5), of uni spare, folded all]
  have h0: "0 \<le> h"
    using Index_lower [of buf "CRLF @ CRLF"] assms(1,2) by simp
  have first: "\<forall>v. find (\<lambda>v. isl (Atoi v)) cls = Some v \<longrightarrow>
            UnmarshalRequest uni buf spare = Ret (None, h + 4, Some (NumError v))"
    by (simp add: dec)
  have noerr: "UnmarshalRequest uni buf spare \<noteq> Ret (None, k, e)"
    if "\<forall>v\<in>set cls. \<not> isl (Atoi v)" for k e
  proof -
    from that have "find (\<lambda>v. isl (Atoi v)) cls = None"
      by (simp add: find_None_iff_all)
    then show ?thesis
      by (simp add: dec Let_def split: go.splits)
  qed
  have ok: "(\<forall>v\<in>set cls. \<not> isl (Atoi v)) \<longrightarrow>
            (let n = projr (Atoi (last cls)) in
             0 \<le> n \<and> h + 4 + n \<le> int (length buf) \<longrightarrow>
               (\<exists>r. UnmarshalRequest uni buf spare = Ret (Some r, h + 4 + n, None)
                  \<and> Content r = take (nat n) (drop (nat (h + 4)) buf)
                  \<and> Lines r ''content-length'' = Some (last cls)))"
  proof
    assume allok: "\<forall>v\<in>set cls. \<not> isl (Atoi v)"
    then have none: "find (\<lambda>v. isl (Atoi v)) cls = None"
      by (simp add: find_None_iff_all)
    define n where "n = projr (Atoi (last cls))"
    have res: "UnmarshalRequest uni buf spare =
        (case slice buf spare (h + 4) (wrap64 (h + 4 + n)) of
           Panic \<Rightarrow> Panic
         | Ret content \<Rightarrow>
             Ret (Some \<lparr>Method = ToLower uni (Split (lines ! 0) '' '' ! 0),
                        Url = ToLower uni (Split (lines ! 0) '' '' ! 1),
                        Version = ToLower uni (Split (lines ! 0) '' '' ! 2),
                        Lines = map_of (rev (headers_of uni lines)),
                        Content = content\<rparr>,
                  wrap64 (h + 4 + n), None))"
      using none assms(8) by (simp add: dec n_def Let_def split: go.splits)
    have lk: "map_of (rev (headers_of uni lines)) ''content-length'' = Some (last cls)"
      using content_length_lookup [of uni lines Map.empty] all assms(8) by simp
    have "\<exists>r. UnmarshalRequest uni buf spare = Ret (Some r, h + 4 + n, None)
                  \<and> Content r = take (nat n) (drop (nat (h + 4)) buf)
                  \<and> Lines r ''content-length'' = Some (last cls)"
      if fits: "0 \<le> n \<and> h + 4 + n \<le> int (length buf)"
    proof -
      from fits assms(9) h0 have w: "wrap64 (h + 4 + n) = h + 4 + n"
        by (intro wrap64_id) simp_all
      have "slice buf spare (h + 4) (h + 4 + n) = Ret (take (nat n) (drop (nat (h + 4)) (buf @ spare)))"
        using fits h0 by (intro slice_Ret) simp_all
      moreover have "take (nat n) (drop (nat (h + 4)) (buf @ spare)) = take (nat n) (drop (nat (h + 4)) buf)"
      proof -
        have "nat n \<le> length buf - nat (h + 4)"
          using fits h0 by linarith
        then show ?thesis by simp
      qed
      ultimately show ?thesis
        by (simp add: res w lk)
    qed
    then show "let n = projr (Atoi (last cls)) in
             0 \<le> n \<and> h + 4 + n \<le> int (length buf) \<longrightarrow>
               (\<exists>r. UnmarshalRequest uni buf spare = Ret (Some r, h + 4 + n, None)
                  \<and> Content r = take (nat n) (drop (nat (h + 4)) buf)
                  \<and> Lines r ''content-length'' = Some (last cls))"
      by (simp add: n_def [symmetric] Let_def)
  qed
  have iff: "(\<exists>e. UnmarshalRequest uni buf spare = Ret (None, h + 4, Some (NumError e)))
            \<longleftrightarrow> (\<exists>v\<in>set cls. isl (Atoi v))"
  proof
    assume l: "\<exists>e. UnmarshalRequest uni buf spare = Ret (None, h + 4, Some (NumError e))"
    show "\<exists>v\<in>set cls. isl (Atoi v)"
    proof (rule ccontr)
      assume "\<not> (\<exists>v\<in>set cls. isl (Atoi v))"
      then have "\<forall>v\<in>set cls. \<not> isl (Atoi v)" by blast
      from noerr [OF this] l show False by blast
    qed
  next
    assume "\<exists>v\<in>set cls. isl (Atoi v)"
    then have "find (\<lambda>v. isl (Atoi v)) cls \<noteq> None"
      by (simp add: find_None_iff_all)
    then obtain v where "find (\<lambda>v. isl (Atoi v)) cls = Some v" by blast
    with first show "\<exists>e. UnmarshalRequest uni buf spare = Ret (None, h + 4, Some (NumError e))"
      by blast
  qed
  from iff first ok show ?thesis by blast
qed

theorem content_length_occurrences_witness:
  "\<exists>r. UnmarshalRequest id two_lengths_example [] = Ret (Some r, 58, None)
      \<and> Content r = ''he'' \<and> Lines r ''content-length'' = Some ''2''"
proof -
  let ?lines = "[''PLAY /s RTSP/1.0'', ''content-length:5'', ''Content-Length:2'']"
  have h: "Index two_lengths_example (CRLF @ CRLF) = 52"
    by code_simp
  have ne: "(52::int) \<noteq> - 1"
    by simp
  have l: "?lines = Split (take (nat 52) two_lengths_example) CRLF"
    by code_simp
  have l2: "2 \<le> length ?lines"
    by simp
  have p: "length (Split (?lines ! 0) '' '') = 3"
    by code_simp
  have q: "map_option fst (header_of id (?lines ! 0)) \<noteq> Some ''content-length''"
    by code_simp
  have c: "[''5'', ''2''] = content_lengths id (tl ?lines)"
    by code_simp
  have c2: "[''5'', ''2''] \<noteq> ([] :: string list)"
    by simp
  have len: "int (length two_lengths_example) < 2 ^ 63"
    by code_simp
  have a5: "Atoi ''5'' = Inr 5" and a2: "Atoi ''2'' = Inr 2"
    by code_simp+
  have cap: "length two_lengths_example = 61"
    by code_simp
  have body: "take 2 (drop 56 two_lengths_example) = ''he''"
    by code_simp
  from content_length_occurrences [OF h ne l l2 p q c c2 len]
  show ?thesis
    by (simp add: a5 a2 cap body)
qed

text \<open>
  Claim C10. Let a buffer hold the terminator, at least two lines before it and a
  request line of three tokens, let all its \<open>content-length\<close> values parse, and let
  the last one parse as a negative integer. Then the upper bound of the body slice is
  below its lower bound and the decoder panics: it returns neither an error nor a
  Request. So the decoder returns a result only if the parsed content length is not
  negative; \<open>negative_length_example\<close> is such an input.
\<close>

theorem negative_content_length_panics:
  assumes "Index buf (CRLF @ CRLF) = h" and "h \<noteq> - 1"
    and "lines = Split (take (nat h) buf) CRLF" and "2 \<le> length lines"
    and "length (Split (lines ! 0) '' '') = 3"
    and "content_lengths uni lines \<noteq> []"
    and "\<forall>v\<in>set (content_lengths uni lines). \<not> isl (Atoi v)"
    and "Atoi (last (content_lengths uni lines)) = Inr n" and "n < 0"
  shows "UnmarshalRequest uni buf spare = Panic"
proof -
  have h0: "0 \<le> h"
    using Index_lower [of buf "CRLF @ CRLF"] assms(1,2) by simp
  have none: "find (\<lambda>v. isl (Atoi v)) (content_lengths uni lines) = None"
    using assms(7) by (simp add: find_None_iff_all)
  have "- (2 ^ 63) \<le> n"
    using Atoi_range [OF assms(8)] by simp
  with h0 have "wrap64 (h + 4 + n) \<le> h + 4 + n"
    by (intro wrap64_le) simp
  with \<open>n < 0\<close> have "wrap64 (h + 4 + n) < h + 4"
    by simp
  then have "slice buf spare (h + 4) (wrap64 (h + 4 + n)) = Panic"
    by (rule slice_Panic_low)
  then show ?thesis
    using assms(6,8) none
    by (simp add: decode_framed [OF assms(1-5)])
qed

theorem negative_content_length_panics_witness:
  "UnmarshalRequest id negative_length_example [] = Panic"
proof -
  let ?lines = "[''PLAY /s RTSP/1.0'', ''content-length:-1'']"
  have h: "Index negative_length_example (CRLF @ CRLF) = 35"
    by code_simp
  have ne: "(35::int) \<noteq> - 1"
    by simp
  have l: "?lines = Split (take (nat 35) negative_length_example) CRLF"
    by code_simp
  have l2: "2 \<le> length ?lines"
    by simp
  have p: "length (Split (?lines ! 0) '' '') = 3"
    by code_simp
  have c: "content_lengths id ?lines = [''-1'']"
    by code_simp
  have a: "Atoi ''-1'' = Inr (- 1)"
    by code_simp
  have c2: "content_lengths id ?lines \<noteq> []"
    by (simp add: c)
  have ok: "\<forall>v\<in>set (content_lengths id ?lines). \<not> isl (Atoi v)"
    by (simp add: c a)
  have last: "Atoi (last (content_lengths id ?lines)) = Inr (- 1)"
    by (simp add: c a)
  show ?thesis
    by (rule negative_content_length_panics [OF h ne l l2 p c2 ok last]) simp
qed

text \<open>
  Claim C6. For every byte buffer that does not contain the 4-byte terminator
  \<open>\r\n\r\n\<close> (it cannot be cut into a prefix, the terminator and a suffix),
  \<open>UnmarshalRequest\<close> returns no Request, \<open>-1\<close> as the number of bytes consumed,
  and the error \<open>incomplete packet\<close>, whatever the spare capacity of the buffer.
\<close>

theorem no_terminator_incomplete:
  assumes "\<nexists>pre post. buf = pre @ (CRLF @ CRLF) @ post"
  shows "UnmarshalRequest uni buf spare = Ret (None, - 1, Some (errors_New ''incomplete packet''))"
proof -
  from assms have "Index buf (CRLF @ CRLF) = - 1"
    by (rule Index_absent_iff [THEN iffD2])
  then show ?thesis
    by (simp add: UnmarshalRequest_def)
qed

theorem no_terminator_incomplete_witness:
  "(\<nexists>pre post. ''SETUP rtsp://host/stream1 RTSP/1.0'' @ CRLF @ ''CSeq: 3'' @ CRLF = pre @ (CRLF @ CRLF) @ post)
   \<and> UnmarshalRequest id (''SETUP rtsp://host/stream1 RTSP/1.0'' @ CRLF @ ''CSeq: 3'' @ CRLF) []
       = Ret (None, - 1, Some (errors_New ''incomplete packet''))"
proof -
  have i: "Index (''SETUP rtsp://host/stream1 RTSP/1.0'' @ CRLF @ ''CSeq: 3'' @ CRLF) (CRLF @ CRLF) = - 1"
    by code_simp
  have h: "\<nexists>pre post. ''SETUP rtsp://host/stream1 RTSP/1.0'' @ CRLF @ ''CSeq: 3'' @ CRLF = pre @ (CRLF @ CRLF) @ post"
    by (rule Index_absent_iff [THEN iffD1, OF i])
  from h no_terminator_incomplete [OF h] show ?thesis by blast
qed

section \<open>SetParameterRequest.Parameters\<close>

lemma Parameters_loop_char:
  "Parameters_loop ls params = params ++ map_of (rev (List.map_filter one_colon_pair ls))"
proof (induction ls arbitrary: params)
  case Nil
  then show ?case by (simp add: map_filter_simps)
next
  case (Cons line rest)
  show ?case
  proof (cases "count_list line (CHR '':'') = 1")
    case True
    then have "Split line '':'' = [takeWhile (\<lambda>x. x \<noteq> CHR '':'') line, tl (dropWhile (\<lambda>x. x \<noteq> CHR '':'') line)]"
      by (rule Split_char_one_colon)
    with True show ?thesis
      by (simp add: Cons.IH one_colon_pair_def map_filter_simps map_add_def fun_eq_iff split: option.splits)
  next
    case False
    then have "length (Split line '':'') \<noteq> 2"
      by (simp add: Split_char_two)
    with False show ?thesis
      by (simp add: Cons.IH one_colon_pair_def map_filter_simps)
  qed
qed

text \<open>
  Claim C9, as stated, fails: the line \<open>k:v:w\<close> splits into three parts at its two
  colons, so it is skipped, and the map has no entry for \<open>k\<close>.
\<close>

theorem Parameters_two_colons_counterexample:
  "Split ''k:v:w'' '':'' = [''k'', ''v'', ''w'']
   \<and> (case SetParameterRequest_Parameters (with_body ''k:v:w'') of
        Some params \<Rightarrow> params ''k'' = None
      | None \<Rightarrow> False)"
  by code_simp

text \<open>
  Claim C9, amended. \<open>Parameters\<close> gives a nil map for an empty body. Otherwise it
  splits the body on \<open>\r\n\<close> and keeps exactly the lines that hold one colon, each as
  the pair of the text before the colon and the text after it, a later line replacing
  an earlier one with the same key; every other line (no colon, or two or more, as in
  \<open>k:v:w\<close>) is skipped. On the body \<open>a:1\r\nbadline\r\nb:2\<close> the map is
  \<open>{a: 1, b: 2}\<close>.
\<close>

theorem Parameters_keeps_one_colon_lines:
  "SetParameterRequest_Parameters req =
     (if Content req = [] then None
      else Some (map_of (rev (List.map_filter one_colon_pair (Split (Content req) CRLF)))))"
  by (simp add: SetParameterRequest_Parameters_def Parameters_loop_char)

theorem Parameters_keeps_one_colon_lines_witness:
  "SetParameterRequest_Parameters (with_body (''a:1'' @ CRLF @ ''badline'' @ CRLF @ ''b:2''))
     = Some [''a'' \<mapsto> ''1'', ''b'' \<mapsto> ''2'']"
proof -
  let ?b = "''a:1'' @ CRLF @ ''badline'' @ CRLF @ ''b:2''"
  have b: "Content (with_body ?b) \<noteq> []"
    by (simp add: with_body_def)
  have ps: "List.map_filter one_colon_pair (Split (Content (with_body ?b)) CRLF)
              = [(''a'', ''1''), (''b'', ''2'')]"
    by code_simp
  have "SetParameterRequest_Parameters (with_body ?b)
          = Some (map_of (rev [(''a'', ''1''), (''b'', ''2'')]))"
    using Parameters_keeps_one_colon_lines [of "with_body ?b"] b
    by (simp only: ps if_False)
  then show ?thesis
    by simp
qed

section \<open>The connection Context\<close>

lemma detached_queries_empty:
  "RemoteAddr \<lparr>Conn = None\<rparr> = Ret []"
  "LocalAddr \<lparr>Conn = None\<rparr> = Ret []"
  "Network \<lparr>Conn = None\<rparr> = Ret []"
  by (simp_all add: RemoteAddr_def LocalAddr_def Network_def)

lemma RemoteAddr_never_panics: "\<not> is_Panic (RemoteAddr ctx)"
  by (simp add: RemoteAddr_def split: option.splits)

text \<open>
  Claim C7. With no handle attached all three queries return the empty string (lemma
  \<open>detached_queries_empty\<close>), and \<open>RemoteAddr\<close> never panics. But \<open>LocalAddr\<close> tests
  the remote address where it reads the local one, so it panics on a connection that
  reports a remote address and no local address; and \<open>Network\<close> reads the remote
  address without a test, so it panics on a connection that reports no remote address.
\<close>

theorem addr_queries_panic:
  "LocalAddr \<lparr>Conn = Some \<lparr>Conn_RemoteAddr = Some a, Conn_LocalAddr = None, Conn_AsyncWrite = w\<rparr>\<rparr>
     = Panic
   \<and> Network \<lparr>Conn = Some \<lparr>Conn_RemoteAddr = None, Conn_LocalAddr = l, Conn_AsyncWrite = w\<rparr>\<rparr>
     = Panic"
  by (simp add: LocalAddr_def Network_def)

text \<open>
  Claim C8. \<open>Write\<close> calls \<open>AsyncWrite\<close> on the handle without a test: on a Context
  that was never attached, and on any Context after \<open>SetConn(nil)\<close>, it panics instead
  of returning an error.
\<close>

theorem Write_detached_panics:
  "Write NewContext data = Panic
   \<and> SetConn ctx nil = Ret (ctx\<lparr>Conn := None\<rparr>)
   \<and> Write (ctx\<lparr>Conn := None\<rparr>) data = Panic"
  by (simp add: Write_def NewContext_def SetConn_def)

end
